theory Spec2Isabelle
  imports Complex_Main "HOL-Library.Word" "HOL-Library.AList" "HOL-Library.Log_Nat"
    "HOL-Library.Sublist"
begin

unbundle bit_operations_syntax

section \<open>Python errors raised by the scripts\<close>

datatype error =
    ValueError string
  | IndexError
  | ZeroDivisionError
  | SdkError string

section \<open>Shor script: classical helpers\<close>

text \<open>
  \<^verbatim>\<open>def gcd(a, b): while b: a, b = b, a % b; return a\<close>.
  Python's \<open>%\<close> on integers takes the sign of the divisor, as \<open>mod\<close> on \<open>int\<close> does.
\<close>

function gcd_py :: "int \<Rightarrow> int \<Rightarrow> int" where
  "gcd_py a b = (if b \<noteq> 0 then gcd_py b (a mod b) else a)"
  by pat_completeness auto
termination
  by (relation "measure (\<lambda>(a, b). nat \<bar>b\<bar>)")
     (auto simp: abs_mod_less)

declare gcd_py.simps [simp del]

definition is_coprime :: "int \<Rightarrow> int \<Rightarrow> bool" where
  "is_coprime a N = (gcd_py a N = 1)"

text \<open>
  The loop of \<open>modular_exponentiation\<close>, on the triple (result, a, power); the variable \<open>power\<close> is written \<open>pw\<close>:
  \<^verbatim>\<open>while power > 0: if power & 1: result = (result * a) % N; power >>= 1; a = (a * a) % N\<close>.
\<close>

function modexp_loop :: "int \<Rightarrow> int \<Rightarrow> int \<Rightarrow> int \<Rightarrow> int" where
  "modexp_loop result a pw N =
     (if pw > 0
      then modexp_loop (if pw AND 1 \<noteq> 0 then (result * a) mod N else result)
             ((a * a) mod N) (drop_bit 1 pw) N
      else result)"
  by pat_completeness auto
termination
  by (relation "measure (\<lambda>(result, a, pw, N). nat pw)")
     (auto simp: drop_bit_eq_div)

declare modexp_loop.simps [simp del]

text \<open>\<open>a % N\<close> raises ZeroDivisionError when \<open>N\<close> is 0, before the loop is entered.\<close>

definition modular_exponentiation :: "int \<Rightarrow> int \<Rightarrow> int \<Rightarrow> error + int" where
  "modular_exponentiation a pw N =
     (if N = 0 then Inl ZeroDivisionError
      else Inr (modexp_loop 1 (a mod N) pw N))"

section \<open>BB84 with eavesdropping: key comparison\<close>

text \<open>Python's true division of two integers; the quotient is kept exact here.\<close>

definition truediv :: "int \<Rightarrow> int \<Rightarrow> error + rat" where
  "truediv x y = (if y = 0 then Inl ZeroDivisionError else Inr (of_int x / of_int y))"

text \<open>\<open>[bit for i, bit in enumerate(bits) if a_bases[i] == b_bases[i]]\<close>\<close>

definition errors_count :: "'a list \<Rightarrow> 'a list \<Rightarrow> nat" where
  "errors_count alice_key bob_key =
     length (filter (\<lambda>(a, b). a \<noteq> b) (zip alice_key bob_key))"

definition calculate_qber :: "'a list \<Rightarrow> 'a list \<Rightarrow> error + rat" where
  "calculate_qber alice_key bob_key =
     (if alice_key = [] then Inr 0
      else truediv (int (errors_count alice_key bob_key)) (int (length alice_key)))"

text \<open>
  \<open>Fraction.limit_denominator\<close> of Python's standard library, which
  \<open>analyze_shor_measurement\<close> calls: the continued-fraction loop
  \<^verbatim>\<open>while True: a = n//d; q2 = q0+a*q1; if q2 > max_denominator: break; ...\<close>
  on the state (p0, q0, p1, q1, n, d). A zero divisor raises ZeroDivisionError.
\<close>

function limit_loop ::
  "int \<Rightarrow> int \<Rightarrow> int \<Rightarrow> int \<Rightarrow> int \<Rightarrow> int \<Rightarrow> int \<Rightarrow> error + (int \<times> int \<times> int \<times> int \<times> int)" where
  "limit_loop max_denominator p0 q0 p1 q1 n d =
     (if d = 0 then Inl ZeroDivisionError
      else if q0 + (n div d) * q1 > max_denominator then Inr (p0, q0, p1, q1, d)
      else limit_loop max_denominator p1 q1 (p0 + (n div d) * p1) (q0 + (n div d) * q1)
             d (n - (n div d) * d))"
  by pat_completeness auto
termination
proof (relation "measure (\<lambda>(m, p0, q0, p1, q1, n, d). nat \<bar>d\<bar>)")
  show "wf (measure (\<lambda>(m, p0, q0, p1, q1, n, d). nat \<bar>d\<bar>))" by simp
next
  fix max_denominator p0 q0 p1 q1 n d :: int
  assume "d \<noteq> 0"
  moreover have "n - n div d * d = n mod d" by (simp add: minus_div_mult_eq_mod)
  ultimately show "((max_denominator, p1, q1, p0 + n div d * p1, q0 + n div d * q1, d,
      n - n div d * d), (max_denominator, p0, q0, p1, q1, n, d))
    \<in> measure (\<lambda>(m, p0, q0, p1, q1, n, d). nat \<bar>d\<bar>)"
    by (simp add: abs_mod_less)
qed

declare limit_loop.simps [simp del]

definition limit_denominator :: "rat \<Rightarrow> int \<Rightarrow> error + (int \<times> int)" where
  "limit_denominator self max_denominator =
     (if max_denominator < 1 then Inl (ValueError ''max_denominator should be at least 1'')
      else case quotient_of self of (numerator, denominator) \<Rightarrow>
        if denominator \<le> max_denominator then Inr (numerator, denominator)
        else case limit_loop max_denominator 0 1 1 0 numerator denominator of
          Inl e \<Rightarrow> Inl e
        | Inr (p0, q0, p1, q1, d) \<Rightarrow>
            if q1 = 0 then Inl ZeroDivisionError
            else let k = (max_denominator - q0) div q1 in
              if 2 * d * (q0 + k * q1) \<le> denominator then Inr (p1, q1)
              else Inr (p0 + k * p1, q0 + k * q1))"

text \<open>
  \<open>analyze_shor_measurement(measurement, n_count, N, a)\<close>. The phase
  \<open>measurement / (2 ** n_count)\<close> is a Python float; it is kept as the exact quotient,
  which is what the float holds whenever \<open>measurement\<close> fits in 53 bits. The result
  pair is (period candidate, factors), each \<open>None\<close> or a value.
\<close>

definition analyze_shor_measurement ::
  "int \<Rightarrow> int \<Rightarrow> int \<Rightarrow> int \<Rightarrow> error + (int option \<times> int list option)" where
  "analyze_shor_measurement measurement n_count N a =
     (let phase = (of_int measurement :: rat) / power_int 2 n_count in
      if phase = 0 then Inr (None, None)
      else case limit_denominator phase N of
        Inl e \<Rightarrow> Inl e
      | Inr (_, r) \<Rightarrow>
          if r = 0 \<or> r mod 2 \<noteq> 0 then Inr (Some r, None)
          else case modular_exponentiation a (r div 2) N of
            Inl e \<Rightarrow> Inl e
          | Inr x1 \<Rightarrow>
             (case modular_exponentiation a (r div 2) N of
                Inl e \<Rightarrow> Inl e
              | Inr x2 \<Rightarrow>
                 (let guess1 = gcd_py (x1 - 1) N;
                      guess2 = gcd_py (x2 + 1) N;
                      factors = filter (\<lambda>guess. 1 < guess \<and> guess < N) [guess1, guess2]
                  in Inr (Some r, if factors \<noteq> [] then Some factors else None))))"

section \<open>Circuits as the scripts build them\<close>

text \<open>
  A \<open>QuantumCircuit\<close> is the list of the gates appended to it, with its numbers of
  qubits and classical bits. Labels and names, which only affect drawing, are left out.
  \<open>Controlled gs qs\<close> is the sub-circuit \<open>gs\<close> under one control, composed onto the
  qubits \<open>qs\<close> (control first). The angle of \<open>CP\<close> is kept in units of \<open>\<pi>\<close>:
  \<^verbatim>\<open>qc.cp(2 * math.pi / (2 ** k), j, i)\<close> is \<open>CP (2 / 2 ^ k) j i\<close>. The angle of
  \<open>RY\<close> is in radians.
\<close>

datatype gate =
    H nat
  | X nat
  | Z nat
  | S nat
  | SDG nat
  | RY real nat
  | CX nat nat
  | CZ nat nat
  | CP real nat nat
  | SWAP nat nat
  | MCX "nat list" nat
  | Controlled "gate list" "nat list"
  | Barrier
  | Measure "nat list" "nat list"

record circuit =
  num_qubits :: nat
  num_clbits :: nat
  gates :: "gate list"

definition QuantumCircuit :: "nat \<Rightarrow> nat \<Rightarrow> circuit" where
  "QuantumCircuit n m = \<lparr>num_qubits = n, num_clbits = m, gates = []\<rparr>"

definition append_gates :: "circuit \<Rightarrow> gate list \<Rightarrow> circuit" where
  "append_gates qc gs = qc\<lparr>gates := gates qc @ gs\<rparr>"

section \<open>The SDK and the environment, as seen from a script\<close>

text \<open>
  A measurement-counts dictionary maps bit strings to counts, in insertion order.
  The attributes of \<open>pub_result.data\<close> are what the extraction loop walks through:
  reading one may raise, it may be an object without \<open>get_counts\<close>, or it may be
  a register whose \<open>get_counts()\<close> gives a dictionary.
\<close>

type_synonym counts = "(string \<times> int) list"

datatype data_attr = Raising | Plain | BitArray counts

text \<open>
  The SDK and its cloud service are not part of the repository: every call into them is
  a parameter, and any of them may raise. The job-submission call and the result of a job
  depend on how many jobs were submitted before, so that two submissions of the same
  circuit may give different counts.
\<close>

record sdk =
  sdk_service :: "string \<Rightarrow> string option \<Rightarrow> string option \<Rightarrow> error + unit"
  sdk_least_busy :: "nat \<Rightarrow> error + string"
  sdk_transpile :: "circuit \<Rightarrow> error + circuit"
  sdk_run :: "nat \<Rightarrow> circuit \<Rightarrow> int \<Rightarrow> error + string"
  sdk_result :: "nat \<Rightarrow> error + (string \<times> data_attr) list"

text \<open>What a run does to the outside world, in order.\<close>

datatype field = Txt string | Num int | Nums "int list" | Flt real | Flts "real list"

datatype event =
    Print "field list"
  | NewService string "string option" "string option"
  | LeastBusy nat
  | Transpile circuit
  | SamplerRun circuit int
  | JobResult nat

type_synonym 'a io = "event list \<Rightarrow> (error + 'a) \<times> event list"

definition return_io :: "'a \<Rightarrow> 'a io" where
  "return_io x = (\<lambda>tr. (Inr x, tr))"

definition raise_io :: "error \<Rightarrow> 'a io" where
  "raise_io e = (\<lambda>tr. (Inl e, tr))"

definition lift_io :: "error + 'a \<Rightarrow> 'a io" where
  "lift_io r = (\<lambda>tr. (r, tr))"

definition bind_io :: "'a io \<Rightarrow> ('a \<Rightarrow> 'b io) \<Rightarrow> 'b io" where
  "bind_io m f = (\<lambda>tr. case m tr of
      (Inl e, tr') \<Rightarrow> (Inl e, tr')
    | (Inr x, tr') \<Rightarrow> f x tr')"

definition then_io :: "unit io \<Rightarrow> 'b io \<Rightarrow> 'b io" where
  "then_io m k = bind_io m (\<lambda>_. k)"

definition emit :: "event \<Rightarrow> unit io" where
  "emit e = (\<lambda>tr. (Inr (), tr @ [e]))"

definition print :: "field list \<Rightarrow> unit io" where
  "print fs = emit (Print fs)"

text \<open>\<open>try: body except Exception as e: handler(e)\<close>\<close>

definition try_except :: "'a io \<Rightarrow> (error \<Rightarrow> 'a io) \<Rightarrow> 'a io" where
  "try_except body handler = (\<lambda>tr. case body tr of
      (Inl e, tr') \<Rightarrow> handler e tr'
    | (Inr x, tr') \<Rightarrow> (Inr x, tr'))"

fun is_run :: "event \<Rightarrow> bool" where
  "is_run (SamplerRun qc shots) = True"
| "is_run _ = False"

definition submissions :: "event list \<Rightarrow> nat" where
  "submissions tr = length (filter is_run tr)"

text \<open>
  The head of every script that talks to the backend:
  \<^verbatim>\<open>load_dotenv()\<close>, then
  \<^verbatim>\<open>IBM_QUANTUM_TOKEN = os.getenv("IBM_QUANTUM_TOKEN")\<close> and
  \<^verbatim>\<open>IBM_QUANTUM_INSTANCE = os.getenv("IBM_QUANTUM_INSTANCE")\<close>.
  \<open>load_dotenv\<close> adds the variables of the \<open>.env\<close> file that the process
  environment does not already set.
\<close>

type_synonym environ = "string \<rightharpoonup> string"

definition load_dotenv :: "environ \<Rightarrow> environ \<Rightarrow> environ" where
  "load_dotenv dotenv env = (\<lambda>k. case env k of Some v \<Rightarrow> Some v | None \<Rightarrow> dotenv k)"

definition getenv :: "environ \<Rightarrow> string \<Rightarrow> string option" where
  "getenv env k = env k"

definition IBM_QUANTUM_TOKEN :: "environ \<Rightarrow> string option" where
  "IBM_QUANTUM_TOKEN env = getenv env ''IBM_QUANTUM_TOKEN''"

definition IBM_QUANTUM_INSTANCE :: "environ \<Rightarrow> string option" where
  "IBM_QUANTUM_INSTANCE env = getenv env ''IBM_QUANTUM_INSTANCE''"

text \<open>
  \<^verbatim>\<open>service = QiskitRuntimeService(channel="ibm_quantum_platform",
    token=IBM_QUANTUM_TOKEN, instance=IBM_QUANTUM_INSTANCE)\<close>,
  the same line in every script that talks to the backend.
\<close>

definition QiskitRuntimeService :: "sdk \<Rightarrow> environ \<Rightarrow> unit io" where
  "QiskitRuntimeService s env =
     then_io
       (emit (NewService ''ibm_quantum_platform'' (IBM_QUANTUM_TOKEN env) (IBM_QUANTUM_INSTANCE env)))
       (lift_io (sdk_service s ''ibm_quantum_platform'' (IBM_QUANTUM_TOKEN env)
          (IBM_QUANTUM_INSTANCE env)))"

definition least_busy :: "sdk \<Rightarrow> nat \<Rightarrow> string io" where
  "least_busy s min_num_qubits =
     then_io (emit (LeastBusy min_num_qubits)) (lift_io (sdk_least_busy s min_num_qubits))"

definition transpile :: "sdk \<Rightarrow> circuit \<Rightarrow> circuit io" where
  "transpile s qc = then_io (emit (Transpile qc)) (lift_io (sdk_transpile s qc))"

text \<open>\<open>job = sampler.run([transpiled], shots=shots)\<close>: the job is the number of the submission.\<close>

definition sampler_run :: "sdk \<Rightarrow> circuit \<Rightarrow> int \<Rightarrow> (nat \<times> string) io" where
  "sampler_run s qc shots = (\<lambda>tr.
     (case sdk_run s (submissions tr) qc shots of
        Inl e \<Rightarrow> Inl e
      | Inr job_id \<Rightarrow> Inr (submissions tr, job_id),
      tr @ [SamplerRun qc shots]))"

definition job_result :: "sdk \<Rightarrow> nat \<Rightarrow> (string \<times> data_attr) list io" where
  "job_result s job = then_io (emit (JobResult job)) (lift_io (sdk_result s job))"


text \<open>
  The handler that closes the VQE script:
  \<^verbatim>\<open>except Exception as e: print(f"Error during execution: {str(e)}")\<close> and the
  three lines of the hint. The other scripts that talk to the backend end in the same
  lines; in ten of them, the Shor and the Grover script among them, the string literal
  of the third line is not terminated, and Python rejects the whole file.
\<close>

fun str :: "error \<Rightarrow> string" where
  "str (ValueError msg) = msg"
| "str IndexError = ''index out of range''"
| "str ZeroDivisionError = ''division by zero''"
| "str (SdkError msg) = msg"

definition credential_hint :: "error \<Rightarrow> unit io" where
  "credential_hint e =
     then_io (print [Txt ''Error during execution: '', Txt (str e)])
    (then_io (print [Txt ''Make sure you have set your IBM Quantum credentials in .env file:''])
    (then_io (print [Txt ''  IBM_QUANTUM_TOKEN=your_token_here''])
             (print [Txt ''  IBM_QUANTUM_INSTANCE=your_instance_here''])))"

section \<open>The VQE script\<close>






text \<open>\<open>int(c)\<close> for one character of a bit string: a decimal digit, or ValueError.\<close>

definition decimal_digits :: string where
  "decimal_digits = ''0123456789''"

definition int_of_digit :: "char \<Rightarrow> error + int" where
  "int_of_digit c =
     (if c \<in> set decimal_digits then Inr (int (of_char c) - 48)
      else Inl (ValueError ''invalid literal for int()''))"








text \<open>
  The random numbers of \<open>run_vqe\<close> come from numpy: \<open>rng_uniform n\<close> stands for
  \<open>np.random.uniform(0, 2 * np.pi, n)\<close> after \<open>np.random.seed(42)\<close>, and
  \<open>rng_randn k n\<close> for the \<open>k\<close>-th call of \<open>np.random.randn(n)\<close>.
\<close>

record rng =
  rng_uniform :: "nat \<Rightarrow> real list"
  rng_randn :: "nat \<Rightarrow> nat \<Rightarrow> real list"





record vqe_results =
  res_best_energy :: "real option"
  res_best_params :: "real list"
  res_energies :: "real list"
  res_n_qubits :: nat
  res_backend :: string
  res_circuit :: circuit
  res_shots :: int


text \<open>
  \<open>analyze_results\<close> of the VQE script only prints; the block of constant text is
  one event here.
\<close>

definition vqe_analyze_results :: "vqe_results \<Rightarrow> unit io" where
  "vqe_analyze_results results =
     then_io (print [Txt ''VQE RESULTS''])
    (then_io (print [Txt ''Backend: '', Txt (res_backend results)])
    (then_io (print [Txt ''Qubits: '', Num (int (res_n_qubits results))])
    (then_io (print [Txt ''Optimization history:'', Flts (res_energies results)])
    (then_io (print [Txt ''  Best energy: '',
                case res_best_energy results of None \<Rightarrow> Txt ''inf'' | Some e \<Rightarrow> Flt e])
    (then_io (print [Txt ''  Best parameters: '', Flts (res_best_params results)])
             (print [Txt ''Final ansatz circuit:'']))))))"



section \<open>The Shor script\<close>









text \<open>
  The two float computations of \<open>run_shor\<close>, taken at their exact values (the
  rounding of double-precision arithmetic is not modelled).
  \<open>int(math.log2(N))\<close> is the integer part of the binary logarithm, which for
  \<open>N \<ge> 1\<close> is the bit length of \<open>N\<close> less one; \<open>run_shor\<close> reaches it
  with \<open>N \<ge> 3\<close> only.
\<close>

definition log2_int :: "int \<Rightarrow> int" where
  "log2_int N = bitlen N - 1"

text \<open>
  \<open>round(N ** (1 / k))\<close> is the integer nearest to the \<open>k\<close>-th root of \<open>N\<close>:
  the least \<open>m \<ge> 0\<close> whose successor half \<open>m + 1/2\<close> lies above the root, that
  is, with \<open>2\<^sup>k N < (2 m + 1)\<^sup>k\<close>. No root of an integer lies halfway between two
  integers, so that no tie is to be broken. The search ends at \<open>m = N\<close> at the latest.
\<close>

definition root_round :: "int \<Rightarrow> int \<Rightarrow> int" where
  "root_round N k =
     (case find (\<lambda>m. 2 ^ nat k * N < (2 * m + 1) ^ nat k) [0..N] of
        Some m \<Rightarrow> m
      | None \<Rightarrow> 0)"







text \<open>
  \<open>int(bitstring, 2)\<close> of Python, on strings of characters with code points below
  256. Python strips white space at both ends (the ASCII characters 9 to 13 and 32, and
  the code points 133 and 160), accepts one sign, then an optional prefix \<open>0b\<close> or
  \<open>0B\<close> which one underscore may follow, and then wants binary digits, with single
  underscores between digits only. Anything else is a ValueError.
\<close>

definition py_isspace :: "char \<Rightarrow> bool" where
  "py_isspace c = (of_char c \<in> {9, 10, 11, 12, 13, 32, 133, 160 :: nat})"

definition binary_digit :: "char \<Rightarrow> int option" where
  "binary_digit c = (if c = CHR ''0'' then Some 0 else if c = CHR ''1'' then Some 1 else None)"

text \<open>The digits after the first one; the character before the argument is a digit.\<close>

fun binary_digits :: "int \<Rightarrow> string \<Rightarrow> int option" where
  "binary_digits acc [] = Some acc"
| "binary_digits acc [c] =
     (case binary_digit c of None \<Rightarrow> None | Some d \<Rightarrow> Some (2 * acc + d))"
| "binary_digits acc (c # c' # rest) =
     (case binary_digit c of
        Some d \<Rightarrow> binary_digits (2 * acc + d) (c' # rest)
      | None \<Rightarrow>
          if c = CHR ''_''
          then (case binary_digit c' of
                  None \<Rightarrow> None
                | Some d \<Rightarrow> binary_digits (2 * acc + d) rest)
          else None)"

definition binary_literal :: "string \<Rightarrow> int option" where
  "binary_literal digits =
     (case digits of
        [] \<Rightarrow> None
      | c # rest \<Rightarrow> (case binary_digit c of None \<Rightarrow> None | Some d \<Rightarrow> binary_digits d rest))"

definition int_base2 :: "string \<Rightarrow> error + int" where
  "int_base2 bitstring =
     (let stripped = rev (dropWhile py_isspace (rev (dropWhile py_isspace bitstring)));
          negative = (take 1 stripped = ''-'');
          unsigned = (if take 1 stripped = ''-'' \<or> take 1 stripped = ''+''
                      then drop 1 stripped else stripped);
          digits = (if take 2 unsigned = ''0b'' \<or> take 2 unsigned = ''0B''
                    then (if take 1 (drop 2 unsigned) = ''_''
                          then drop 3 unsigned else drop 2 unsigned)
                    else unsigned)
      in case binary_literal digits of
           None \<Rightarrow> Inl (ValueError ''invalid literal for int() with base 2'')
         | Some v \<Rightarrow> Inr (if negative then - v else v))"






text \<open>
  The \<open>__main__\<close> block of the Shor script is not given a model: the file as shipped
  has an unterminated string literal in its closing handler, so that Python refuses
  the whole file with a SyntaxError before any statement of it runs. The functions above are
  those that the file would define.
\<close>

section \<open>The index script of the error-correction folder\<close>


section \<open>The Grover script: oracle and diffuser\<close>

text \<open>
  A marked state is given as an integer or as a binary string, which
  \<open>create_oracle\<close> converts with \<open>int(state, 2)\<close>.
\<close>

datatype marked_state = IntState int | StrState string

fun marked_ints :: "marked_state list \<Rightarrow> error + int list" where
  "marked_ints [] = Inr []"
| "marked_ints (IntState i # rest) =
     (case marked_ints rest of Inl e \<Rightarrow> Inl e | Inr is \<Rightarrow> Inr (i # is))"
| "marked_ints (StrState bits # rest) =
     (case int_base2 bits of
        Inl e \<Rightarrow> Inl e
      | Inr i \<Rightarrow> (case marked_ints rest of Inl e \<Rightarrow> Inl e | Inr is \<Rightarrow> Inr (i # is)))"

text \<open>
  The block that both functions use for the multi-controlled Z:
  \<^verbatim>\<open>if n_qubits == 1: z(0)  elif n_qubits == 2: cz(0, 1)
    else: h(n_qubits - 1); mcx(list(range(n_qubits - 1)), n_qubits - 1); h(n_qubits - 1)\<close>
\<close>

definition multi_controlled_z :: "nat \<Rightarrow> gate list" where
  "multi_controlled_z n_qubits =
     (if n_qubits = 1 then [Z 0]
      else if n_qubits = 2 then [CZ 0 1]
      else [H (n_qubits - 1), MCX [0..<n_qubits - 1] (n_qubits - 1), H (n_qubits - 1)])"

text \<open>
  The X gates around it:
  \<^verbatim>\<open>for i in range(n_qubits): if not (target >> i) & 1: oracle.x(i)\<close>
\<close>

definition zero_bit_flips :: "nat \<Rightarrow> int \<Rightarrow> gate list" where
  "zero_bit_flips n_qubits target =
     map X (filter (\<lambda>i. (drop_bit i target) AND 1 = 0) [0..<n_qubits])"

definition mark_target :: "nat \<Rightarrow> int \<Rightarrow> gate list" where
  "mark_target n_qubits target =
     zero_bit_flips n_qubits target @ multi_controlled_z n_qubits @ zero_bit_flips n_qubits target"

text \<open>
  On a circuit without qubits the block reaches \<open>h(-1)\<close>, which the SDK refuses.
\<close>

definition create_oracle :: "nat \<Rightarrow> marked_state list \<Rightarrow> error + circuit" where
  "create_oracle n_qubits marked_states =
     (case marked_ints marked_states of
        Inl e \<Rightarrow> Inl e
      | Inr targets \<Rightarrow>
          if n_qubits = 0 \<and> targets \<noteq> [] then Inl (SdkError ''CircuitError'')
          else Inr (append_gates (QuantumCircuit n_qubits 0)
                      (concat (map (mark_target n_qubits) targets))))"

definition create_diffuser :: "nat \<Rightarrow> error + circuit" where
  "create_diffuser n_qubits =
     (if n_qubits = 0 then Inl (SdkError ''CircuitError'')
      else Inr (append_gates (QuantumCircuit n_qubits 0)
                  (map H [0..<n_qubits] @ map X [0..<n_qubits]
                   @ multi_controlled_z n_qubits
                   @ map X [0..<n_qubits] @ map H [0..<n_qubits])))"

section \<open>What a circuit does to a state vector\<close>

text \<open>
  The state of the qubits is its vector of amplitudes, indexed by the basis states; qubit
  \<open>i\<close> is bit \<open>i\<close> of the index, as in the SDK. The gates below act as their
  textbook matrices; the other gates are not given a meaning here.
\<close>

type_synonym state = "nat \<Rightarrow> complex"

definition hadamard :: "nat \<Rightarrow> state \<Rightarrow> state" where
  "hadamard q psi =
     (\<lambda>x. (psi (unset_bit q x)
            + (if bit x q then - psi (set_bit q x) else psi (set_bit q x)))
          / of_real (sqrt 2))"

fun apply_gate :: "gate \<Rightarrow> state \<Rightarrow> state option" where
  "apply_gate (H q) psi = Some (hadamard q psi)"
| "apply_gate (X q) psi = Some (\<lambda>x. psi (flip_bit q x))"
| "apply_gate (Z q) psi = Some (\<lambda>x. if bit x q then - psi x else psi x)"
| "apply_gate (CZ c t) psi = Some (\<lambda>x. if bit x c \<and> bit x t then - psi x else psi x)"
| "apply_gate (CX c t) psi = Some (\<lambda>x. if bit x c then psi (flip_bit t x) else psi x)"
| "apply_gate (MCX cs t) psi =
     Some (\<lambda>x. if list_all (bit x) cs then psi (flip_bit t x) else psi x)"
| "apply_gate Barrier psi = Some psi"
| "apply_gate g psi = None"

fun run_gates :: "gate list \<Rightarrow> state \<Rightarrow> state option" where
  "run_gates [] psi = Some psi"
| "run_gates (g # gs) psi =
     (case apply_gate g psi of None \<Rightarrow> None | Some psi' \<Rightarrow> run_gates gs psi')"

section \<open>Reading a trace\<close>



fun is_print :: "event \<Rightarrow> bool" where
  "is_print (Print fs) = True"
| "is_print _ = False"

text \<open>The calls into the SDK that a trace holds, in order.\<close>

definition backend_events :: "event list \<Rightarrow> event list" where
  "backend_events tr = filter (\<lambda>e. \<not> is_print e) tr"

fun is_service :: "event \<Rightarrow> bool" where
  "is_service (NewService channel token instance) = True"
| "is_service _ = False"

text \<open>
  \<open>no_service m\<close>: the action \<open>m\<close> only appends to the trace, and no construction
  of a service.
\<close>

definition no_service :: "'a io \<Rightarrow> bool" where
  "no_service m =
     (\<forall>tr r tr'. m tr = (r, tr') \<longrightarrow>
        (\<exists>new. tr' = tr @ new \<and> list_all (\<lambda>e. \<not> is_service e) new))"



text \<open>
  \<open>at_most k m\<close>: whatever the SDK answers and however it ends, the action \<open>m\<close>
  submits at most \<open>k\<close> jobs.
\<close>

definition at_most :: "nat \<Rightarrow> 'a io \<Rightarrow> bool" where
  "at_most k m = (\<forall>tr r tr'. m tr = (r, tr') \<longrightarrow> submissions tr' \<le> submissions tr + k)"

text \<open>\<open>only_prints m\<close>: the action \<open>m\<close> adds nothing but printed lines to the trace.\<close>

definition only_prints :: "'a io \<Rightarrow> bool" where
  "only_prints m =
     (\<forall>tr r tr'. m tr = (r, tr') \<longrightarrow> (\<exists>new. tr' = tr @ new \<and> backend_events new = []))"




section \<open>Backends for running the models\<close>







section \<open>Properties of the classical helpers of the Shor script\<close>

text \<open>The Euclidean loop computes the greatest common divisor once the divisor is positive.\<close>

lemma gcd_py_nonneg: "0 \<le> a \<Longrightarrow> 0 \<le> b \<Longrightarrow> gcd_py a b = gcd a b"
proof (induction a b rule: gcd_py.induct)
  case (1 a b)
  show ?case
  proof (cases "b = 0")
    case True
    with "1.prems" show ?thesis by (simp add: gcd_py.simps)
  next
    case False
    with "1.prems" have "0 < b" by simp
    then have "0 \<le> a mod b" by simp
    with "1.IH" False "1.prems" have "gcd_py b (a mod b) = gcd b (a mod b)" by simp
    also have "\<dots> = gcd a b" by (metis gcd_red_int)
    finally show ?thesis using False by (subst gcd_py.simps) simp
  qed
qed

lemma gcd_py_pos: assumes "0 < b" shows "gcd_py a b = gcd a b"
proof -
  have "gcd_py a b = gcd_py b (a mod b)" using assms by (subst gcd_py.simps) simp
  also have "\<dots> = gcd b (a mod b)" using assms by (intro gcd_py_nonneg) simp_all
  also have "\<dots> = gcd a b" by (metis gcd_red_int)
  finally show ?thesis .
qed

lemma modexp_loop_correct:
  "0 \<le> pw \<Longrightarrow> modexp_loop r a pw N = (if pw = 0 then r else (r * a ^ nat pw) mod N)"
proof (induction r a pw N rule: modexp_loop.induct)
  case (1 r a pw N)
  show ?case
  proof (cases "pw > 0")
    case False
    with "1.prems" show ?thesis by (simp add: modexp_loop.simps)
  next
    case True
    define r' where "r' = (if pw AND 1 \<noteq> 0 then (r * a) mod N else r)"
    have odd_iff: "pw AND 1 \<noteq> 0 \<longleftrightarrow> odd pw" by (simp add: and_one_eq odd_iff_mod_2_eq_one)
    have half: "drop_bit 1 pw = pw div 2" by (simp add: drop_bit_eq_div)
    have nonneg: "0 \<le> pw div 2" using True by simp
    have step: "modexp_loop r a pw N = modexp_loop r' ((a * a) mod N) (pw div 2) N"
      using True by (subst modexp_loop.simps) (simp only: r'_def half if_True)
    have IH: "modexp_loop r' ((a * a) mod N) (pw div 2) N =
        (if pw div 2 = 0 then r' else (r' * ((a * a) mod N) ^ nat (pw div 2)) mod N)"
      using "1.IH" [OF True, unfolded half, OF nonneg] unfolding r'_def .
    show ?thesis
    proof (cases "pw div 2 = 0")
      case z: True
      with True have "pw = 1" by presburger
      then show ?thesis using step IH z by (simp add: r'_def)
    next
      case nz: False
      have sq: "(r' * ((a * a) mod N) ^ nat (pw div 2)) mod N = (r' * (a * a) ^ nat (pw div 2)) mod N"
        by (metis mod_mult_right_eq power_mod)
      have pw2: "(a * a) ^ nat (pw div 2) = a ^ (2 * nat (pw div 2))"
        by (simp add: power_mult power2_eq_square)
      show ?thesis
      proof (cases "odd pw")
        case o: True
        then have "pw = 2 * (pw div 2) + 1" by presburger
        then have "nat pw = nat (2 * (pw div 2) + 1)" by simp
        also have "\<dots> = Suc (2 * nat (pw div 2))"
          using nonneg by (simp add: nat_add_distrib nat_mult_distrib)
        finally have e: "nat pw = Suc (2 * nat (pw div 2))" .
        have "(r' * (a * a) ^ nat (pw div 2)) mod N = ((r * a) * a ^ (2 * nat (pw div 2))) mod N"
          using o by (simp add: r'_def odd_iff pw2 mod_mult_left_eq)
        also have "\<dots> = (r * a ^ nat pw) mod N" by (simp add: e mult.assoc)
        finally show ?thesis using step IH nz sq True by simp
      next
        case ev: False
        then have "pw = 2 * (pw div 2)" by presburger
        then have "nat pw = nat (2 * (pw div 2))" by simp
        also have "\<dots> = 2 * nat (pw div 2)"
          using nonneg by (simp add: nat_mult_distrib)
        finally have e: "nat pw = 2 * nat (pw div 2)" .
        have "(r' * (a * a) ^ nat (pw div 2)) mod N = (r * a ^ nat pw) mod N"
          using ev e by (simp add: r'_def odd_iff pw2)
        then show ?thesis using step IH nz sq True by simp
      qed
    qed
  qed
qed

lemma modular_exponentiation_correct:
  assumes "0 \<le> pw" "N \<noteq> 0" "pw \<noteq> 0 \<or> 1 mod N = 1"
  shows "modular_exponentiation a pw N = Inr (a ^ nat pw mod N)"
  using assms by (auto simp add: modular_exponentiation_def modexp_loop_correct power_mod)

text \<open>
  Claim C8. \<open>modular_exponentiation(a, power, N)\<close> is documented as computing
  \<open>a^power mod N\<close>. The accumulator starts at 1 and is reduced modulo \<open>N\<close> only
  inside the loop, so for \<open>power = 0\<close> and \<open>N = 1\<close> the function returns 1 while
  \<open>a^0 mod 1\<close> is 0. (For \<open>power > 0\<close>, or \<open>N > 1\<close>, lemma
  \<open>modular_exponentiation_correct\<close> gives \<open>a^power mod N\<close>.)
\<close>

theorem modular_exponentiation_modulus_one:
  "modular_exponentiation 5 0 1 = Inr 1 \<and> (5::int) ^ nat 0 mod 1 = 0"
  by (simp add: modular_exponentiation_def modexp_loop.simps)

text \<open>
  Claim C9. For \<open>measurement \<ge> 0\<close>, \<open>n_count \<ge> 0\<close> and \<open>N \<ge> 2\<close>, whenever
  \<open>analyze_shor_measurement\<close> returns a factors list that is not \<open>None\<close>, every
  element \<open>f\<close> of the list is a non-trivial divisor of \<open>N\<close>: \<open>1 < f < N\<close> and
  \<open>f\<close> divides \<open>N\<close>.
\<close>

theorem analyze_shor_measurement_factors:
  assumes "0 \<le> measurement" "0 \<le> n_count" "2 \<le> N"
    and "analyze_shor_measurement measurement n_count N a = Inr (r, Some factors)"
  shows "\<forall>f \<in> set factors. 1 < f \<and> f < N \<and> f dvd N"
proof -
  have g: "gcd_py x N dvd N" for x
    using assms(3) by (simp add: gcd_py_pos)
  from assms(4) show ?thesis
    unfolding analyze_shor_measurement_def Let_def
    by (auto split: if_splits sum.splits prod.splits simp: g)
qed

theorem analyze_shor_measurement_factors_witness:
  "(0::int) \<le> 4 \<and> (0::int) \<le> 4 \<and> (2::int) \<le> 15 \<and>
   analyze_shor_measurement 4 4 15 7 = Inr (Some 4, Some [3, 5]) \<and>
   (1::int) < 3 \<and> (3::int) < 15 \<and> (3::int) dvd 15 \<and>
   (1::int) < 5 \<and> (5::int) < 15 \<and> (5::int) dvd 15"
proof -
  have e: "analyze_shor_measurement 4 4 15 7 = Inr (Some 4, Some [3, 5])" by code_simp
  from analyze_shor_measurement_factors [of 4 4 15 7 "Some 4" "[3, 5]"] e
  show ?thesis by simp
qed

text \<open>
  Claim C3, as stated: no script computes anything numeric of its own. The Shor script
  does: from the measured value 12 of a 4-qubit counting register it derives the period 4
  and the factors 3 and 5 of 15 with its own Euclidean loop, its own square-and-multiply
  loop and a continued-fraction step, none of which is an SDK call.
\<close>

theorem local_numerics_counterexample:
  "analyze_shor_measurement 12 4 15 7 = Inr (Some 4, Some [3, 5]) \<and>
   gcd_py 48 15 = 3 \<and> modular_exponentiation 7 2 15 = Inr 4"
  by code_simp

text \<open>
  Claim C3, amended: the scripts delegate circuit execution to the SDK, and the Shor
  script carries its own integer numerics: \<open>gcd(x, y)\<close> is the greatest common
  divisor whenever \<open>y > 0\<close>, and \<open>modular_exponentiation(a, power, N)\<close> is
  \<open>a^power mod N\<close> whenever \<open>power \<ge> 0\<close> and \<open>N \<ge> 2\<close>.
\<close>

theorem local_numerics:
  "(0 < y \<longrightarrow> gcd_py x y = gcd x y) \<and>
   (0 \<le> pw \<and> 2 \<le> N \<longrightarrow> modular_exponentiation a pw N = Inr (a ^ nat pw mod N))"
proof -
  have "modular_exponentiation a pw N = Inr (a ^ nat pw mod N)" if "0 \<le> pw" "2 \<le> N"
    using that by (intro modular_exponentiation_correct) simp_all
  then show ?thesis by (simp add: gcd_py_pos)
qed

theorem local_numerics_witness:
  "(0::int) < 15 \<and> gcd_py 48 15 = gcd 48 15 \<and> (0::int) \<le> 2 \<and> (2::int) \<le> 15 \<and>
   modular_exponentiation 7 2 15 = Inr (7 ^ nat 2 mod 15)"
  using local_numerics [where y = 15 and x = 48 and pw = 2 and N = 15 and a = 7] by simp

section \<open>Properties of the BB84 key comparison\<close>

lemma errors_count_le: "errors_count alice_key bob_key \<le> length alice_key"
proof -
  have "errors_count alice_key bob_key \<le> length (zip alice_key bob_key)"
    unfolding errors_count_def by (rule length_filter_le)
  then show ?thesis by simp
qed

lemma errors_count_card:
  "errors_count alice_key bob_key =
     card {i. i < length alice_key \<and> i < length bob_key \<and> alice_key ! i \<noteq> bob_key ! i}"
proof -
  have "errors_count alice_key bob_key =
      card {i. i < length (zip alice_key bob_key) \<and> (\<lambda>(a, b). a \<noteq> b) (zip alice_key bob_key ! i)}"
    unfolding errors_count_def by (rule length_filter_conv_card)
  also have "{i. i < length (zip alice_key bob_key) \<and> (\<lambda>(a, b). a \<noteq> b) (zip alice_key bob_key ! i)}
      = {i. i < length alice_key \<and> i < length bob_key \<and> alice_key ! i \<noteq> bob_key ! i}"
    by auto
  finally show ?thesis .
qed

lemma errors_count_same: "errors_count key key = 0"
  by (auto simp: errors_count_def filter_empty_conv zip_same)

text \<open>
  Claim C4, as stated: no script has behaviour that is fixed by its inputs alone.
  \<open>calculate_qber\<close> has: its value is determined by the two keys.
\<close>

theorem calculate_qber_local_counterexample:
  "calculate_qber [0, 1, 1, 0 :: int] [0, 1, 0, 0] = Inr (1 / 4) \<and>
   calculate_qber [0, 1, 1, 0 :: int] [0, 1, 1, 0] = Inr 0"
  by code_simp

text \<open>
  Claim C4, amended: what a script derives from measurement counts depends on the
  hardware, but \<open>calculate_qber\<close> is a function of its two arguments alone and has a
  locally checkable invariant: a key compared with itself has error rate 0.
\<close>

theorem calculate_qber_same_key: "calculate_qber key key = Inr 0"
  by (simp add: calculate_qber_def truediv_def errors_count_same)

text \<open>
  Claim C10. \<open>calculate_qber(alice_key, bob_key)\<close> returns for every pair of lists
  and never divides by zero: the result is 0 when \<open>alice_key\<close> is empty, and otherwise
  lies in the closed interval from 0 to 1 and equals the number of positions, among those
  both keys have, where the keys differ, divided by the length of \<open>alice_key\<close>.
\<close>

theorem calculate_qber_total:
  "\<exists>q. calculate_qber alice_key bob_key = Inr q \<and>
     (alice_key = [] \<longrightarrow> q = 0) \<and>
     (alice_key \<noteq> [] \<longrightarrow>
        0 \<le> q \<and> q \<le> 1 \<and>
        q = of_nat (card {i. i < length alice_key \<and> i < length bob_key \<and>
                            alice_key ! i \<noteq> bob_key ! i})
            / of_nat (length alice_key))"
proof (cases "alice_key = []")
  case True
  then show ?thesis by (simp add: calculate_qber_def)
next
  case False
  then have len: "0 < length alice_key" by simp
  define q :: rat where
    "q = of_nat (errors_count alice_key bob_key) / of_nat (length alice_key)"
  have eq: "calculate_qber alice_key bob_key = Inr q"
    using False by (simp add: calculate_qber_def truediv_def q_def)
  have "0 \<le> q" by (simp add: q_def)
  moreover have "q \<le> 1"
    using errors_count_le [of alice_key bob_key] len by (simp add: q_def)
  moreover have "q = of_nat (card {i. i < length alice_key \<and> i < length bob_key \<and>
      alice_key ! i \<noteq> bob_key ! i}) / of_nat (length alice_key)"
    by (simp add: q_def errors_count_card)
  ultimately show ?thesis using eq False by blast
qed

theorem calculate_qber_total_witness:
  "calculate_qber [0, 1, 1, 0 :: int] [0, 1, 0, 0] = Inr (1 / 4) \<and>
   [0, 1, 1, 0 :: int] \<noteq> []"
proof -
  have e: "calculate_qber [0, 1, 1, 0 :: int] [0, 1, 0, 0] = Inr (1 / 4)" by code_simp
  from calculate_qber_total [of "[0, 1, 1, 0 :: int]" "[0, 1, 0, 0]"] e
  show ?thesis by simp
qed

section \<open>Runs of the scripts: what reaches the backend\<close>



lemma submissions_append [simp]: "submissions (xs @ ys) = submissions xs + submissions ys"
  by (simp add: submissions_def)

lemma emit_result: "emit e tr = (r, tr') \<Longrightarrow> r = Inr () \<and> tr' = tr @ [e]"
  by (auto simp: emit_def)




lemma transpile_submissions:
  "transpile s qc tr = (r, tr') \<Longrightarrow> submissions tr' = submissions tr"
  by (auto simp: transpile_def then_io_def bind_io_def emit_def lift_io_def submissions_def
      split: prod.splits sum.splits)

lemma job_result_submissions:
  "job_result s job tr = (r, tr') \<Longrightarrow> submissions tr' = submissions tr"
  by (auto simp: job_result_def then_io_def bind_io_def emit_def lift_io_def submissions_def
      split: prod.splits sum.splits)

lemma service_submissions:
  "QiskitRuntimeService s env tr = (r, tr') \<Longrightarrow> submissions tr' = submissions tr"
  by (auto simp: QiskitRuntimeService_def then_io_def bind_io_def emit_def lift_io_def
      submissions_def split: prod.splits sum.splits)

lemma least_busy_submissions:
  "least_busy s n tr = (r, tr') \<Longrightarrow> submissions tr' = submissions tr"
  by (auto simp: least_busy_def then_io_def bind_io_def emit_def lift_io_def submissions_def
      split: prod.splits sum.splits)












lemma at_most_lift [simp]: "at_most 0 (lift_io x)"
  by (simp add: at_most_def lift_io_def)

lemma at_most_print [simp]: "at_most 0 (print fs)"
  by (auto simp: at_most_def print_def emit_def submissions_def)

lemma at_most_bind:
  assumes "at_most j m" "\<And>x. at_most k (f x)"
  shows "at_most (j + k) (bind_io m f)"
  unfolding at_most_def
proof (intro allI impI)
  fix tr r tr'
  assume b: "bind_io m f tr = (r, tr')"
  obtain r1 tr1 where m: "m tr = (r1, tr1)" by (cases "m tr")
  with assms(1) have le1: "submissions tr1 \<le> submissions tr + j" by (auto simp: at_most_def)
  show "submissions tr' \<le> submissions tr + (j + k)"
  proof (cases r1)
    case (Inl e)
    with b m have "tr' = tr1" by (simp add: bind_io_def)
    with le1 show ?thesis by simp
  next
    case (Inr x)
    with b m have "f x tr1 = (r, tr')" by (simp add: bind_io_def)
    with assms(2) [of x] have "submissions tr' \<le> submissions tr1 + k" by (auto simp: at_most_def)
    with le1 show ?thesis by simp
  qed
qed

lemma at_most_bind0:
  assumes "at_most 0 m" "\<And>x. at_most k (f x)"
  shows "at_most k (bind_io m f)"
  using at_most_bind [OF assms] by simp

lemma at_most_then0:
  assumes "at_most 0 m" "at_most k n"
  shows "at_most k (then_io m n)"
  unfolding then_io_def using assms by (intro at_most_bind0) simp_all

lemma at_most_try:
  assumes "at_most k m" "\<And>e. at_most 0 (h e)"
  shows "at_most k (try_except m h)"
  unfolding at_most_def
proof (intro allI impI)
  fix tr r tr'
  assume b: "try_except m h tr = (r, tr')"
  obtain r1 tr1 where m: "m tr = (r1, tr1)" by (cases "m tr")
  with assms(1) have le1: "submissions tr1 \<le> submissions tr + k" by (auto simp: at_most_def)
  show "submissions tr' \<le> submissions tr + k"
  proof (cases r1)
    case (Inl e)
    with b m have "h e tr1 = (r, tr')" by (simp add: try_except_def)
    with assms(2) [of e] have "submissions tr' \<le> submissions tr1" by (auto simp: at_most_def)
    with le1 show ?thesis by simp
  next
    case (Inr x)
    with b m have "tr' = tr1" by (simp add: try_except_def)
    with le1 show ?thesis by simp
  qed
qed

lemma at_most_service [simp]: "at_most 0 (QiskitRuntimeService s env)"
  unfolding at_most_def by (auto dest: service_submissions)

lemma at_most_least_busy [simp]: "at_most 0 (least_busy s n)"
  unfolding at_most_def by (auto dest: least_busy_submissions)

lemma at_most_transpile [simp]: "at_most 0 (transpile s qc)"
  unfolding at_most_def by (auto dest: transpile_submissions)

lemma at_most_job_result [simp]: "at_most 0 (job_result s job)"
  unfolding at_most_def by (auto dest: job_result_submissions)


lemma at_most_credential_hint [simp]: "at_most 0 (credential_hint e)"
  unfolding credential_hint_def by (intro at_most_then0) simp_all








lemma int_of_digit_ok: "c \<in> set decimal_digits \<Longrightarrow> \<not> isl (int_of_digit c)"
  by (simp add: int_of_digit_def)





















text \<open>The order of the SDK calls in a run of \<open>run_shor\<close>.\<close>

lemma backend_events_append [simp]:
  "backend_events (xs @ ys) = backend_events xs @ backend_events ys"
  by (simp add: backend_events_def)

lemma only_prints_return [simp]: "only_prints (return_io x)"
  by (simp add: only_prints_def return_io_def backend_events_def)

lemma only_prints_raise [simp]: "only_prints (raise_io e)"
  by (simp add: only_prints_def raise_io_def backend_events_def)

lemma only_prints_lift [simp]: "only_prints (lift_io x)"
  by (simp add: only_prints_def lift_io_def backend_events_def)

lemma only_prints_print [simp]: "only_prints (print fs)"
  by (simp add: only_prints_def print_def emit_def backend_events_def)

lemma only_prints_bind:
  assumes "only_prints m" "\<And>x. only_prints (f x)"
  shows "only_prints (bind_io m f)"
  unfolding only_prints_def
proof (intro allI impI)
  fix tr r tr'
  assume b: "bind_io m f tr = (r, tr')"
  obtain r1 tr1 where m: "m tr = (r1, tr1)" by (cases "m tr")
  with assms(1) obtain new1 where n1: "tr1 = tr @ new1" "backend_events new1 = []"
    unfolding only_prints_def by blast
  show "\<exists>new. tr' = tr @ new \<and> backend_events new = []"
  proof (cases r1)
    case (Inl e)
    with b m have "tr' = tr1" by (simp add: bind_io_def)
    with n1 show ?thesis by blast
  next
    case (Inr x)
    with b m have "f x tr1 = (r, tr')" by (simp add: bind_io_def)
    with assms(2) [of x] obtain new2 where "tr' = tr1 @ new2" "backend_events new2 = []"
      unfolding only_prints_def by blast
    with n1 have "tr' = tr @ (new1 @ new2) \<and> backend_events (new1 @ new2) = []" by simp
    then show ?thesis by blast
  qed
qed

lemma only_prints_then:
  assumes "only_prints m" "only_prints k"
  shows "only_prints (then_io m k)"
  unfolding then_io_def using assms by (intro only_prints_bind) simp_all




text \<open>The two float computations at their exact values.\<close>

lemma log2_int_floor: "0 < N \<Longrightarrow> log2_int N = \<lfloor>log 2 (real_of_int N)\<rfloor>"
  by (simp add: log2_int_def bitlen_alt_def)

lemma find_append_cases:
  "find P (xs @ ys) = (case find P xs of None \<Rightarrow> find P ys | Some x \<Rightarrow> Some x)"
  by (induction xs) simp_all

lemma find_upto_least:
  assumes "a \<le> m" "m \<le> b" "P m" "\<And>j. a \<le> j \<Longrightarrow> j < m \<Longrightarrow> \<not> P j"
  shows "find P [a..b] = Some m"
proof -
  have split: "[a..b] = [a..m - 1] @ m # [m + 1..b]"
    using assms(1,2) by (rule upto_split3)
  have "find P [a..m - 1] = None"
    using assms(4) by (auto simp: find_None_iff)
  with assms(3) show ?thesis unfolding split by (simp add: find_append_cases)
qed


lemma root_round_nearest:
  assumes "1 \<le> N" "1 \<le> k"
  shows "root_round N k = round (root (nat k) (real_of_int N))"
proof -
  define x where "x = root (nat k) (real_of_int N)"
  define m where "m = round x"
  have kpos: "0 < nat k" using assms(2) by simp
  have x1: "1 \<le> x" unfolding x_def using assms(1) kpos by simp
  have xk: "x ^ nat k = real_of_int N"
    unfolding x_def using assms(1) kpos by simp
  have xN: "x \<le> real_of_int N"
  proof -
    have "x ^ 1 \<le> x ^ nat k" using x1 kpos by (intro power_increasing) simp_all
    with xk show ?thesis by simp
  qed
  have m0: "0 \<le> m" unfolding m_def using x1 by (simp add: round_def)
  have mN: "m \<le> N" unfolding m_def round_def using xN by linarith
  have up: "x < real_of_int m + 1 / 2" unfolding m_def round_def by linarith
  have lo: "real_of_int m - 1 / 2 \<le> x" unfolding m_def round_def by linarith
  have Pm: "2 ^ nat k * N < (2 * m + 1) ^ nat k"
  proof -
    have "x ^ nat k < (real_of_int m + 1 / 2) ^ nat k"
      using up x1 kpos by (intro power_strict_mono) simp_all
    then have "2 ^ nat k * real_of_int N < 2 ^ nat k * (real_of_int m + 1 / 2) ^ nat k"
      unfolding xk by simp
    also have "\<dots> = (2 * real_of_int m + 1) ^ nat k"
      by (simp add: power_mult_distrib [symmetric] algebra_simps)
    finally have "real_of_int (2 ^ nat k * N) < real_of_int ((2 * m + 1) ^ nat k)" by simp
    then show ?thesis by linarith
  qed
  have Pj: "\<not> 2 ^ nat k * N < (2 * j + 1) ^ nat k" if "0 \<le> j" "j < m" for j
  proof -
    from that have "real_of_int j + 1 / 2 \<le> real_of_int m - 1 / 2" by simp
    with lo have "real_of_int j + 1 / 2 \<le> x" by simp
    then have "(real_of_int j + 1 / 2) ^ nat k \<le> x ^ nat k"
      using that(1) by (intro power_mono) simp_all
    then have "2 ^ nat k * (real_of_int j + 1 / 2) ^ nat k \<le> 2 ^ nat k * real_of_int N"
      unfolding xk by simp
    moreover have "2 ^ nat k * (real_of_int j + 1 / 2) ^ nat k = (2 * real_of_int j + 1) ^ nat k"
      by (simp add: power_mult_distrib [symmetric] algebra_simps)
    ultimately have "real_of_int ((2 * j + 1) ^ nat k) \<le> real_of_int (2 ^ nat k * N)" by simp
    then show ?thesis by linarith
  qed
  have "find (\<lambda>j. 2 ^ nat k * N < (2 * j + 1) ^ nat k) [0..N] = Some m"
    using m0 mN Pm Pj by (rule find_upto_least)
  then show ?thesis by (simp add: root_round_def m_def x_def)
qed











text \<open>Actions that construct no service.\<close>

lemma no_service_return [simp]: "no_service (return_io x)"
  by (simp add: no_service_def return_io_def)

lemma no_service_raise [simp]: "no_service (raise_io e)"
  by (simp add: no_service_def raise_io_def)

lemma no_service_lift [simp]: "no_service (lift_io x)"
  by (simp add: no_service_def lift_io_def)

lemma no_service_print [simp]: "no_service (print fs)"
  by (simp add: no_service_def print_def emit_def)

lemma no_service_least_busy [simp]: "no_service (least_busy s n)"
  by (auto simp: no_service_def least_busy_def then_io_def bind_io_def emit_def lift_io_def
      split: sum.splits)

lemma no_service_transpile [simp]: "no_service (transpile s qc)"
  by (auto simp: no_service_def transpile_def then_io_def bind_io_def emit_def lift_io_def
      split: sum.splits)

lemma no_service_job_result [simp]: "no_service (job_result s job)"
  by (auto simp: no_service_def job_result_def then_io_def bind_io_def emit_def lift_io_def
      split: sum.splits)

lemma no_service_sampler_run [simp]: "no_service (sampler_run s qc shots)"
  by (auto simp: no_service_def sampler_run_def)

lemma no_service_bind:
  assumes "no_service m" "\<And>x. no_service (f x)"
  shows "no_service (bind_io m f)"
  unfolding no_service_def
proof (intro allI impI)
  fix tr r tr'
  assume b: "bind_io m f tr = (r, tr')"
  obtain r1 tr1 where m: "m tr = (r1, tr1)" by (cases "m tr")
  with assms(1) obtain new1 where
    n1: "tr1 = tr @ new1" "list_all (\<lambda>e. \<not> is_service e) new1"
    unfolding no_service_def by blast
  show "\<exists>new. tr' = tr @ new \<and> list_all (\<lambda>e. \<not> is_service e) new"
  proof (cases r1)
    case (Inl e)
    with b m have "tr' = tr1" by (simp add: bind_io_def)
    with n1 show ?thesis by blast
  next
    case (Inr x)
    with b m have "f x tr1 = (r, tr')" by (simp add: bind_io_def)
    with assms(2) [of x] obtain new2 where
      "tr' = tr1 @ new2" "list_all (\<lambda>e. \<not> is_service e) new2"
      unfolding no_service_def by blast
    with n1 have "tr' = tr @ (new1 @ new2) \<and> list_all (\<lambda>e. \<not> is_service e) (new1 @ new2)"
      by simp
    then show ?thesis by blast
  qed
qed

lemma no_service_then:
  assumes "no_service m" "no_service k"
  shows "no_service (then_io m k)"
  unfolding then_io_def using assms by (intro no_service_bind) simp_all


lemma no_service_credential_hint [simp]: "no_service (credential_hint e)"
  unfolding credential_hint_def by (intro no_service_then) simp_all





lemma no_service_vqe_analyze_results [simp]: "no_service (vqe_analyze_results results)"
  unfolding vqe_analyze_results_def by (intro no_service_then) simp_all














lemma only_prints_vqe_analyze_results: "only_prints (vqe_analyze_results results)"
  unfolding vqe_analyze_results_def by (intro only_prints_then) simp_all


lemma only_prints_credential_hint: "only_prints (credential_hint e)"
  unfolding credential_hint_def by (intro only_prints_then) simp_all












section \<open>Claims about the runs of the scripts\<close>













section \<open>The oracle and the diffuser of the Grover script as operators\<close>

lemma run_gates_append:
  "run_gates (gs @ hs) psi =
     (case run_gates gs psi of None \<Rightarrow> None | Some psi' \<Rightarrow> run_gates hs psi')"
  by (induction gs arbitrary: psi) (auto split: option.splits)

lemma run_gates_X_layer:
  "run_gates (map X qs) psi = Some (\<lambda>x. psi (foldr flip_bit qs x))"
  by (induction qs arbitrary: psi) simp_all

lemma bit_foldr_flip_bit:
  "distinct qs \<Longrightarrow> bit (foldr flip_bit qs (x::nat)) i \<longleftrightarrow> (bit x i \<noteq> (i \<in> set qs))"
  by (induction qs) (auto simp: bit_flip_bit_iff)

lemma foldr_flip_bit_twice:
  assumes "distinct qs"
  shows "foldr flip_bit qs (foldr flip_bit qs (x::nat)) = x"
  by (rule bit_eqI) (auto simp: bit_foldr_flip_bit assms)

lemma sqrt2_sq: "(of_real (sqrt 2) :: complex) * of_real (sqrt 2) = 2"
proof -
  have "(of_real (sqrt 2) :: complex) * of_real (sqrt 2) = of_real (sqrt 2 * sqrt 2)"
    by (simp only: of_real_mult)
  then show ?thesis by simp
qed

lemma H_pair:
  fixes a b :: complex
  shows "((a + b) / of_real (sqrt 2) + (a - b) / of_real (sqrt 2)) / of_real (sqrt 2) = a"
    and "((a + b) / of_real (sqrt 2) - (a - b) / of_real (sqrt 2)) / of_real (sqrt 2) = b"
proof -
  have nz: "(of_real (sqrt 2) :: complex) \<noteq> 0" by simp
  have "((a + b) / of_real (sqrt 2) + (a - b) / of_real (sqrt 2)) / of_real (sqrt 2)
      = (2 * a) / (of_real (sqrt 2) * of_real (sqrt 2))"
    by (simp add: add_divide_distrib [symmetric])
  then show "((a + b) / of_real (sqrt 2) + (a - b) / of_real (sqrt 2)) / of_real (sqrt 2) = a"
    by (simp add: sqrt2_sq)
  have "((a + b) / of_real (sqrt 2) - (a - b) / of_real (sqrt 2)) / of_real (sqrt 2)
      = (2 * b) / (of_real (sqrt 2) * of_real (sqrt 2))"
    by (simp add: diff_divide_distrib [symmetric])
  then show "((a + b) / of_real (sqrt 2) - (a - b) / of_real (sqrt 2)) / of_real (sqrt 2) = b"
    by (simp add: sqrt2_sq)
qed

lemma bit_moves:
  fixes x :: nat
  shows "unset_bit q (unset_bit q x) = unset_bit q x"
    and "set_bit q (unset_bit q x) = set_bit q x"
    and "unset_bit q (set_bit q x) = unset_bit q x"
    and "set_bit q (set_bit q x) = set_bit q x"
    and "flip_bit q (unset_bit q x) = set_bit q x"
    and "flip_bit q (set_bit q x) = unset_bit q x"
  by (rule bit_eqI; auto simp: bit_simps)+

lemma bit_fixed:
  fixes x :: nat
  shows "bit x q \<Longrightarrow> set_bit q x = x"
    and "\<not> bit x q \<Longrightarrow> unset_bit q x = x"
  by (rule bit_eqI; auto simp: bit_simps)+

lemma list_all_bit_other:
  fixes x :: nat
  assumes "q \<notin> set cs"
  shows "list_all (bit (unset_bit q x)) cs = list_all (bit x) cs"
    and "list_all (bit (set_bit q x)) cs = list_all (bit x) cs"
  using assms by (induction cs) (auto simp: bit_simps)

lemma H_MCX_H:
  assumes "q \<notin> set cs"
  shows "run_gates [H q, MCX cs q, H q] psi =
     Some (\<lambda>x. if list_all (bit x) cs \<and> bit x q then - psi x else psi x)"
proof -
  define psi1 :: state where "psi1 = hadamard q psi"
  define psi2 :: state where
    "psi2 = (\<lambda>x. if list_all (bit x) cs then psi1 (flip_bit q x) else psi1 x)"
  define psi3 :: state where "psi3 = hadamard q psi2"
  have run: "run_gates [H q, MCX cs q, H q] psi = Some psi3"
    unfolding psi3_def psi2_def psi1_def by simp
  have "psi3 x = (if list_all (bit x) cs \<and> bit x q then - psi x else psi x)" for x
  proof -
    define a where "a = psi (unset_bit q x)"
    define b where "b = psi (set_bit q x)"
    have u1: "psi1 (unset_bit q x) = (a + b) / of_real (sqrt 2)"
      by (simp add: psi1_def hadamard_def a_def b_def bit_moves bit_simps)
    have s1: "psi1 (set_bit q x) = (a - b) / of_real (sqrt 2)"
      by (simp add: psi1_def hadamard_def a_def b_def bit_moves bit_simps)
    have u2: "psi2 (unset_bit q x) =
        (if list_all (bit x) cs then (a - b) / of_real (sqrt 2) else (a + b) / of_real (sqrt 2))"
      by (simp add: psi2_def list_all_bit_other [OF assms] bit_moves u1 s1)
    have s2: "psi2 (set_bit q x) =
        (if list_all (bit x) cs then (a + b) / of_real (sqrt 2) else (a - b) / of_real (sqrt 2))"
      by (simp add: psi2_def list_all_bit_other [OF assms] bit_moves u1 s1)
    have e1: "((a + b) / of_real (sqrt 2) + (a - b) / of_real (sqrt 2)) / of_real (sqrt 2) = a"
      and e2: "((a + b) / of_real (sqrt 2) - (a - b) / of_real (sqrt 2)) / of_real (sqrt 2) = b"
      by (rule H_pair)+
    have e3: "((a - b) / of_real (sqrt 2) + (a + b) / of_real (sqrt 2)) / of_real (sqrt 2) = a"
      using e1 by (simp add: add.commute)
    have "((a - b) / of_real (sqrt 2) - (a + b) / of_real (sqrt 2)) / of_real (sqrt 2)
          = - (((a + b) / of_real (sqrt 2) - (a - b) / of_real (sqrt 2)) / of_real (sqrt 2))"
      by (simp add: minus_divide_left)
    with e2 have e4:
      "((a - b) / of_real (sqrt 2) - (a + b) / of_real (sqrt 2)) / of_real (sqrt 2) = - b"
      by simp
    have p3: "psi3 x = (psi2 (unset_bit q x)
                 + (if bit x q then - psi2 (set_bit q x) else psi2 (set_bit q x)))
               / of_real (sqrt 2)"
      by (simp add: psi3_def hadamard_def)
    show ?thesis
    proof (cases "bit x q")
      case True
      then have "b = psi x" by (simp add: b_def bit_fixed)
      with True show ?thesis
        unfolding p3 u2 s2 using e1 e2 e3 e4 by simp
    next
      case False
      then have "a = psi x" by (simp add: a_def bit_fixed)
      with False show ?thesis
        unfolding p3 u2 s2 using e1 e2 e3 e4 by simp
    qed
  qed
  then have "psi3 = (\<lambda>x. if list_all (bit x) cs \<and> bit x q then - psi x else psi x)"
    by (simp add: fun_eq_iff)
  with run show ?thesis by simp
qed

lemma list_all_bit_upt: "list_all (bit (x::nat)) [0..<q] \<longleftrightarrow> (\<forall>i<q. bit x i)"
  by (auto simp: list_all_iff)

lemma multi_controlled_z_sem:
  assumes "1 \<le> n"
  shows "run_gates (multi_controlled_z n) psi =
     Some (\<lambda>x. if (\<forall>i<n. bit x i) then - psi x else psi x)"
proof -
  consider "n = 1" | "n = 2" | "3 \<le> n" using assms by linarith
  then show ?thesis
  proof cases
    case 1
    then show ?thesis by (simp add: multi_controlled_z_def)
  next
    case 2
    have "(\<forall>i<2. bit x i) \<longleftrightarrow> bit x 0 \<and> bit x (Suc 0)" for x :: nat
      by (auto simp: less_2_cases_iff)
    with 2 show ?thesis by (simp add: multi_controlled_z_def)
  next
    case 3
    define q where "q = n - 1"
    have n: "n = Suc q" using 3 by (simp add: q_def)
    have "q \<notin> set [0..<q]" by simp
    from H_MCX_H [OF this, of psi]
    have "run_gates [H q, MCX [0..<q] q, H q] psi =
        Some (\<lambda>x. if (\<forall>i<q. bit x i) \<and> bit x q then - psi x else psi x)"
      by (simp only: list_all_bit_upt)
    moreover have "(\<forall>i<q. bit x i) \<and> bit x q \<longleftrightarrow> (\<forall>i<n. bit x i)" for x :: nat
      unfolding n by (auto simp: less_Suc_eq)
    moreover have "multi_controlled_z n = [H q, MCX [0..<q] q, H q]"
      using 3 by (simp add: multi_controlled_z_def q_def)
    ultimately show ?thesis by simp
  qed
qed

lemma zero_bit_flips_eq:
  "zero_bit_flips n target = map X (filter (\<lambda>i. \<not> bit target i) [0..<n])"
proof -
  have "(drop_bit i target AND 1 = 0) \<longleftrightarrow> \<not> bit target i" for i
    by (simp add: and_one_eq bit_iff_odd_drop_bit even_iff_mod_2_eq_zero)
  then show ?thesis by (simp add: zero_bit_flips_def)
qed

lemma mark_target_sem:
  assumes "1 \<le> n"
  shows "run_gates (mark_target n target) psi =
     Some (\<lambda>x. if (\<forall>i<n. bit x i \<longleftrightarrow> bit target i) then - psi x else psi x)"
proof -
  define qs where "qs = filter (\<lambda>i. \<not> bit target i) [0..<n]"
  have d: "distinct qs" by (simp add: qs_def)
  have m: "i \<in> set qs \<longleftrightarrow> i < n \<and> \<not> bit target i" for i by (auto simp: qs_def)
  let ?f = "\<lambda>x::nat. foldr flip_bit qs x"
  have ff: "?f (?f x) = x" for x by (simp add: foldr_flip_bit_twice [OF d])
  have bf: "bit (?f x) i \<longleftrightarrow> (bit x i \<noteq> (i < n \<and> \<not> bit target i))" for x i
    by (simp add: bit_foldr_flip_bit [OF d] m)
  have all: "(\<forall>i<n. bit (?f x) i) \<longleftrightarrow> (\<forall>i<n. bit x i \<longleftrightarrow> bit target i)" for x
    by (auto simp: bf)
  have "run_gates (mark_target n target) psi =
      Some (\<lambda>x. if (\<forall>i<n. bit (?f x) i) then - psi (?f (?f x)) else psi (?f (?f x)))"
    unfolding mark_target_def zero_bit_flips_eq qs_def [symmetric]
    by (simp add: run_gates_append run_gates_X_layer multi_controlled_z_sem [OF assms])
  then show ?thesis by (simp only: ff all)
qed

lemma low_bits_eq:
  assumes "x < 2 ^ n" "0 \<le> t" "t < 2 ^ n"
  shows "(\<forall>i<n. bit x i \<longleftrightarrow> bit t i) \<longleftrightarrow> int x = t"
proof
  assume a: "\<forall>i<n. bit x i \<longleftrightarrow> bit t i"
  have "int x < 2 ^ n" using assms(1) by simp
  then have tx: "take_bit n (int x) = int x"
    by (simp add: take_bit_int_eq_self)
  have tt: "take_bit n t = t"
    using assms(2,3) by (simp add: take_bit_int_eq_self)
  have "bit (take_bit n (int x)) i = bit (take_bit n t) i" for i
  proof (cases "i < n")
    case True
    with a have "bit x i = bit t i" by blast
    with True show ?thesis by (simp add: bit_take_bit_iff bit_of_nat_iff_bit)
  next
    case False
    then show ?thesis by (simp add: bit_take_bit_iff)
  qed
  then have "take_bit n (int x) = take_bit n t" by (rule bit_eqI)
  then show "int x = t" unfolding tx tt .
next
  assume e: "int x = t"
  show "\<forall>i<n. bit x i \<longleftrightarrow> bit t i"
  proof (intro allI impI)
    fix i
    show "bit x i \<longleftrightarrow> bit t i"
      unfolding e [symmetric] by (simp only: bit_of_nat_iff_bit)
  qed
qed

lemma oracle_gates_sem:
  assumes "1 \<le> n"
  shows "distinct ts \<Longrightarrow> \<forall>t \<in> set ts. 0 \<le> t \<and> t < 2 ^ n \<Longrightarrow>
    \<exists>psi'. run_gates (concat (map (mark_target n) ts)) psi = Some psi' \<and>
      (\<forall>x<2 ^ n. psi' x = (if int x \<in> set ts then - psi x else psi x))"
proof (induction ts arbitrary: psi)
  case Nil
  then show ?case by simp
next
  case (Cons t ts)
  define psi1 :: state where
    "psi1 = (\<lambda>x. if (\<forall>i<n. bit x i \<longleftrightarrow> bit t i) then - psi x else psi x)"
  have r1: "run_gates (mark_target n t) psi = Some psi1"
    by (simp add: mark_target_sem [OF assms] psi1_def)
  from Cons.prems have d: "distinct ts" "t \<notin> set ts"
    and rng: "\<forall>t \<in> set ts. 0 \<le> t \<and> t < 2 ^ n" and t: "0 \<le> t" "t < 2 ^ n"
    by simp_all
  from Cons.IH [OF d(1) rng, of psi1] obtain psi' where
    r: "run_gates (concat (map (mark_target n) ts)) psi1 = Some psi'" and
    v: "\<forall>x<2 ^ n. psi' x = (if int x \<in> set ts then - psi1 x else psi1 x)"
    by blast
  have "run_gates (concat (map (mark_target n) (t # ts))) psi = Some psi'"
    by (simp add: run_gates_append r1 r)
  moreover have "psi' x = (if int x \<in> set (t # ts) then - psi x else psi x)" if "x < 2 ^ n" for x
  proof -
    have e: "(\<forall>i<n. bit x i \<longleftrightarrow> bit t i) \<longleftrightarrow> int x = t"
      using that t by (rule low_bits_eq)
    show ?thesis
      using v that d(2) by (auto simp: psi1_def e)
  qed
  ultimately show ?case by blast
qed

lemma run_gates_H_layer: "run_gates (map H qs) psi = Some (fold hadamard qs psi)"
  by (induction qs arbitrary: psi) simp_all

lemma hadamard_twice: "hadamard q (hadamard q psi) = psi"
proof
  fix x
  define a where "a = psi (unset_bit q x)"
  define b where "b = psi (set_bit q x)"
  have u: "hadamard q psi (unset_bit q x) = (a + b) / of_real (sqrt 2)"
    by (simp add: hadamard_def a_def b_def bit_moves bit_simps)
  have s: "hadamard q psi (set_bit q x) = (a - b) / of_real (sqrt 2)"
    by (simp add: hadamard_def a_def b_def bit_moves bit_simps)
  have e: "hadamard q (hadamard q psi) x =
      (hadamard q psi (unset_bit q x)
       + (if bit x q then - hadamard q psi (set_bit q x) else hadamard q psi (set_bit q x)))
      / of_real (sqrt 2)"
    by (simp add: hadamard_def)
  show "hadamard q (hadamard q psi) x = psi x"
  proof (cases "bit x q")
    case True
    then have "b = psi x" by (simp add: b_def bit_fixed)
    with True show ?thesis unfolding e u s using H_pair(2) [of a b] by simp
  next
    case False
    then have "a = psi x" by (simp add: a_def bit_fixed)
    with False show ?thesis unfolding e u s using H_pair(1) [of a b] by simp
  qed
qed

lemma bit_swaps:
  fixes x :: nat
  assumes "i \<noteq> j"
  shows "unset_bit i (unset_bit j x) = unset_bit j (unset_bit i x)"
    and "unset_bit i (set_bit j x) = set_bit j (unset_bit i x)"
    and "set_bit i (set_bit j x) = set_bit j (set_bit i x)"
  using assms by (rule_tac [!] bit_eqI) (auto simp: bit_simps)

lemma hadamard_commute:
  "hadamard i (hadamard j psi) = hadamard j (hadamard i psi)"
proof (cases "i = j")
  case True
  then show ?thesis by simp
next
  case False
  then have ji: "j \<noteq> i" by simp
  show ?thesis
  proof
    fix x
    have l: "hadamard i (hadamard j psi) x =
        ((psi (unset_bit j (unset_bit i x))
          + (if bit x j then - psi (set_bit j (unset_bit i x)) else psi (set_bit j (unset_bit i x))))
         + (if bit x i
            then - (psi (unset_bit j (set_bit i x))
                    + (if bit x j then - psi (set_bit j (set_bit i x))
                       else psi (set_bit j (set_bit i x))))
            else (psi (unset_bit j (set_bit i x))
                    + (if bit x j then - psi (set_bit j (set_bit i x))
                       else psi (set_bit j (set_bit i x))))))
        / (of_real (sqrt 2) * of_real (sqrt 2))"
      using False by (simp add: hadamard_def bit_simps add_divide_distrib diff_divide_distrib)
    have r: "hadamard j (hadamard i psi) x =
        ((psi (unset_bit i (unset_bit j x))
          + (if bit x i then - psi (set_bit i (unset_bit j x)) else psi (set_bit i (unset_bit j x))))
         + (if bit x j
            then - (psi (unset_bit i (set_bit j x))
                    + (if bit x i then - psi (set_bit i (set_bit j x))
                       else psi (set_bit i (set_bit j x))))
            else (psi (unset_bit i (set_bit j x))
                    + (if bit x i then - psi (set_bit i (set_bit j x))
                       else psi (set_bit i (set_bit j x))))))
        / (of_real (sqrt 2) * of_real (sqrt 2))"
      using False by (simp add: hadamard_def bit_simps add_divide_distrib diff_divide_distrib)
    show "hadamard i (hadamard j psi) x = hadamard j (hadamard i psi) x"
      unfolding l r
      by (simp add: bit_swaps(1) [OF False] bit_swaps(2) [OF ji] bit_swaps(2) [OF False, symmetric]
          bit_swaps(3) [OF False])
  qed
qed

lemma fold_hadamard_commute:
  "fold hadamard qs (hadamard q psi) = hadamard q (fold hadamard qs psi)"
proof (induction qs arbitrary: psi)
  case Nil
  then show ?case by simp
next
  case (Cons a qs)
  have "fold hadamard (a # qs) (hadamard q psi) = fold hadamard qs (hadamard a (hadamard q psi))"
    by simp
  also have "\<dots> = fold hadamard qs (hadamard q (hadamard a psi))"
    by (simp only: hadamard_commute [of a q])
  also have "\<dots> = hadamard q (fold hadamard qs (hadamard a psi))"
    by (rule Cons.IH)
  finally show ?case by simp
qed

lemma hadamard_layer_twice:
  "fold hadamard [0..<k] (fold hadamard [0..<k] psi) = psi"
proof (induction k arbitrary: psi)
  case 0
  then show ?case by simp
next
  case (Suc k)
  have "fold hadamard [0..<Suc k] (fold hadamard [0..<Suc k] psi)
      = hadamard k (fold hadamard [0..<k] (hadamard k (fold hadamard [0..<k] psi)))"
    by simp
  also have "\<dots> = hadamard k (hadamard k (fold hadamard [0..<k] (fold hadamard [0..<k] psi)))"
    by (simp only: fold_hadamard_commute)
  also have "\<dots> = psi" by (simp only: hadamard_twice Suc.IH)
  finally show ?case .
qed

lemma hadamard_linear:
  "hadamard q (\<lambda>x. f x - c * g x) = (\<lambda>x. hadamard q f x - c * hadamard q g x)"
  by (rule ext) (simp add: hadamard_def algebra_simps diff_divide_distrib add_divide_distrib)

lemma hadamard_layer_linear:
  "fold hadamard qs (\<lambda>x. f x - c * g x)
     = (\<lambda>x. fold hadamard qs f x - c * fold hadamard qs g x)"
proof (induction qs arbitrary: f g)
  case Nil
  then show ?case by simp
next
  case (Cons q qs)
  have "fold hadamard (q # qs) (\<lambda>x. f x - c * g x)
      = fold hadamard qs (\<lambda>x. hadamard q f x - c * hadamard q g x)"
    by (simp add: hadamard_linear)
  also have "\<dots> = (\<lambda>x. fold hadamard qs (hadamard q f) x - c * fold hadamard qs (hadamard q g) x)"
    by (rule Cons.IH)
  finally show ?case by simp
qed

lemma sum_split_double:
  fixes f :: "nat \<Rightarrow> complex"
  shows "(\<Sum>y<m + m. f y) = (\<Sum>y<m. f y) + (\<Sum>y<m. f (m + y))"
proof -
  have "(\<Sum>y<m + m. f y) = sum f {0..<m} + sum f {m..<m + m}"
    by (simp add: lessThan_atLeast0 sum.atLeastLessThan_concat)
  also have "sum f {m..<m + m} = sum (\<lambda>y. f (y + m)) {0..<m}"
    using sum.shift_bounds_nat_ivl [of f 0 m m] by simp
  finally show ?thesis by (simp add: lessThan_atLeast0 add.commute)
qed

lemma hadamard_layer_sum:
  "(\<forall>i<k. \<not> bit x i) \<Longrightarrow>
   fold hadamard [0..<k] phi x = (\<Sum>y<2 ^ k. phi (x + y)) / of_real (sqrt 2) ^ k"
proof (induction k arbitrary: x)
  case 0
  then show ?case by simp
next
  case (Suc k)
  define g where "g = fold hadamard [0..<k] phi"
  from Suc.prems have nk: "\<not> bit x k" and low: "\<forall>i<k. \<not> bit x i" by simp_all
  have u: "unset_bit k x = x" using nk by (rule bit_fixed)
  have s: "set_bit k x = x + 2 ^ k" using nk by (simp add: set_bit_eq)
  have low': "\<forall>i<k. \<not> bit (x + 2 ^ k) i"
    unfolding s [symmetric] using low by (simp add: bit_simps)
  have g0: "g x = (\<Sum>y<2 ^ k. phi (x + y)) / of_real (sqrt 2) ^ k"
    unfolding g_def using low by (rule Suc.IH)
  have g1: "g (x + 2 ^ k) = (\<Sum>y<2 ^ k. phi (x + 2 ^ k + y)) / of_real (sqrt 2) ^ k"
    unfolding g_def using low' by (rule Suc.IH)
  have "fold hadamard [0..<Suc k] phi x = hadamard k g x" by (simp add: g_def)
  also have "\<dots> = (g x + g (x + 2 ^ k)) / of_real (sqrt 2)"
    using nk by (simp add: hadamard_def u s)
  also have "\<dots> = ((\<Sum>y<2 ^ k. phi (x + y)) + (\<Sum>y<2 ^ k. phi (x + 2 ^ k + y)))
      / of_real (sqrt 2) ^ Suc k"
    by (simp add: g0 g1 add_divide_distrib mult.commute)
  also have "(\<Sum>y<2 ^ k. phi (x + y)) + (\<Sum>y<2 ^ k. phi (x + 2 ^ k + y))
      = (\<Sum>y<2 ^ Suc k. phi (x + y))"
    using sum_split_double [where m = "2 ^ k" and f = "\<lambda>y. phi (x + y)"]
    by (simp add: add.assoc mult_2)
  finally show ?case .
qed

lemma bit_clear_low:
  "bit (push_bit k (drop_bit k (x::nat))) i \<longleftrightarrow> k \<le> i \<and> bit x i"
  by (auto simp: bit_push_bit_iff bit_drop_bit_eq)

lemma hadamard_layer_delta:
  "(\<forall>z. (\<exists>i<k. bit z i) \<longrightarrow> phi z = 0) \<Longrightarrow>
   fold hadamard [0..<k] phi x = phi (push_bit k (drop_bit k x)) / of_real (sqrt 2) ^ k"
proof (induction k arbitrary: x)
  case 0
  then show ?case by simp
next
  case (Suc k)
  define g where "g = fold hadamard [0..<k] phi"
  from Suc.prems have v: "\<forall>z. (\<exists>i<k. bit z i) \<longrightarrow> phi z = 0"
    by (meson less_SucI)
  have gv: "g z = phi (push_bit k (drop_bit k z)) / of_real (sqrt 2) ^ k" for z
    unfolding g_def using v by (rule Suc.IH)
  have "bit (push_bit k (drop_bit k (unset_bit k x))) i
      = bit (push_bit (Suc k) (drop_bit (Suc k) x)) i" for i
    unfolding bit_clear_low by (auto simp: bit_unset_bit_iff Suc_le_eq)
  then have h0: "push_bit k (drop_bit k (unset_bit k x)) = push_bit (Suc k) (drop_bit (Suc k) x)"
    by (rule bit_eqI)
  have "bit (push_bit k (drop_bit k (set_bit k x))) k"
    unfolding bit_clear_low by (simp add: bit_set_bit_iff)
  with Suc.prems have h1: "phi (push_bit k (drop_bit k (set_bit k x))) = 0"
    by (meson lessI)
  have "fold hadamard [0..<Suc k] phi x = hadamard k g x" by (simp add: g_def)
  also have "\<dots> = g (unset_bit k x) / of_real (sqrt 2)"
    by (simp add: hadamard_def gv h1)
  also have "\<dots> = phi (push_bit (Suc k) (drop_bit (Suc k) x)) / of_real (sqrt 2) ^ Suc k"
    by (simp add: gv h0)
  finally show ?case .
qed

lemma clear_low_small: "x < 2 ^ n \<Longrightarrow> push_bit n (drop_bit n (x::nat)) = 0"
  by (simp add: drop_bit_eq_div)

lemma zero_state_phase_flip:
  assumes "1 \<le> n"
  shows "run_gates (map X [0..<n] @ multi_controlled_z n @ map X [0..<n]) phi =
     Some (\<lambda>x. if (\<forall>i<n. \<not> bit x i) then - phi x else phi x)"
proof -
  let ?f = "\<lambda>x::nat. foldr flip_bit [0..<n] x"
  have d: "distinct [0..<n]" by simp
  have ff: "?f (?f x) = x" for x by (simp add: foldr_flip_bit_twice [OF d])
  have all: "(\<forall>i<n. bit (?f x) i) \<longleftrightarrow> (\<forall>i<n. \<not> bit x i)" for x
    by (auto simp: bit_foldr_flip_bit [OF d])
  have "run_gates (map X [0..<n] @ multi_controlled_z n @ map X [0..<n]) phi =
      Some (\<lambda>x. if (\<forall>i<n. bit (?f x) i) then - phi (?f (?f x)) else phi (?f (?f x)))"
    by (simp add: run_gates_append run_gates_X_layer multi_controlled_z_sem [OF assms])
  then show ?thesis by (simp only: ff all)
qed

lemma power_sqrt2_sq: "(of_real (sqrt 2) :: complex) ^ n * of_real (sqrt 2) ^ n = 2 ^ n"
proof -
  have "(of_real (sqrt 2) :: complex) ^ n * of_real (sqrt 2) ^ n
      = (of_real (sqrt 2) * of_real (sqrt 2)) ^ n"
    by (simp only: power_mult_distrib)
  then show ?thesis by (simp only: sqrt2_sq)
qed

lemma diffuser_gates_sem:
  assumes "1 \<le> n"
  shows "\<exists>psi'. run_gates (map H [0..<n] @ map X [0..<n] @ multi_controlled_z n
                  @ map X [0..<n] @ map H [0..<n]) psi = Some psi' \<and>
     (\<forall>x<2 ^ n. psi' x = psi x - 2 / 2 ^ n * (\<Sum>y<2 ^ n. psi y))"
proof -
  define g where "g = fold hadamard [0..<n] psi"
  define chi :: state where "chi = (\<lambda>x. if (\<forall>i<n. \<not> bit x i) then g x else 0)"
  define d :: state where "d = (\<lambda>x. if (\<forall>i<n. \<not> bit x i) then - g x else g x)"
  define psi' where "psi' = fold hadamard [0..<n] d"
  have run: "run_gates (map H [0..<n] @ map X [0..<n] @ multi_controlled_z n
                  @ map X [0..<n] @ map H [0..<n]) psi = Some psi'"
    using zero_state_phase_flip [OF assms, of g]
    by (simp add: run_gates_append run_gates_H_layer g_def [symmetric] d_def psi'_def
        del: append_assoc add: append_assoc [symmetric])
  have dd: "d = (\<lambda>x. g x - 2 * chi x)" by (rule ext) (auto simp: d_def chi_def)
  have "psi' = (\<lambda>x. fold hadamard [0..<n] g x - 2 * fold hadamard [0..<n] chi x)"
    unfolding psi'_def dd by (rule hadamard_layer_linear)
  then have p: "psi' x = psi x - 2 * fold hadamard [0..<n] chi x" for x
    by (simp add: g_def hadamard_layer_twice)
  have "psi' x = psi x - 2 / 2 ^ n * (\<Sum>y<2 ^ n. psi y)" if "x < 2 ^ n" for x
  proof -
    have van: "\<forall>z. (\<exists>i<n. bit z i) \<longrightarrow> chi z = 0" by (auto simp: chi_def)
    have "fold hadamard [0..<n] chi x = chi 0 / of_real (sqrt 2) ^ n"
      using hadamard_layer_delta [OF van, of x] that by (simp add: clear_low_small)
    also have "chi 0 = g 0" by (simp add: chi_def)
    also have "g 0 = (\<Sum>y<2 ^ n. psi y) / of_real (sqrt 2) ^ n"
      unfolding g_def using hadamard_layer_sum [of n 0 psi] by simp
    finally have "fold hadamard [0..<n] chi x
        = (\<Sum>y<2 ^ n. psi y) / (of_real (sqrt 2) ^ n * of_real (sqrt 2) ^ n)"
      by simp
    then have "fold hadamard [0..<n] chi x = (\<Sum>y<2 ^ n. psi y) / 2 ^ n"
      by (simp only: power_sqrt2_sq)
    with p [of x] show ?thesis by simp
  qed
  with run show ?thesis by blast
qed

text \<open>
  Claim C6. For \<open>n_qubits \<ge> 1\<close> and distinct marked basis states below
  \<open>2 ^ n_qubits\<close>, the circuit of \<open>create_oracle\<close> maps the amplitude
  \<open>psi x\<close> of every basis state \<open>x\<close> to \<open>- psi x\<close> when \<open>x\<close> is marked and leaves
  it unchanged otherwise, and the circuit of \<open>create_diffuser\<close> maps \<open>psi\<close> to the
  negative of its reflection about the uniform superposition, whose amplitude at \<open>x\<close>
  is \<open>2 / 2 ^ n_qubits\<close> times the sum of all amplitudes, minus \<open>psi x\<close>.
\<close>

theorem grover_oracle_and_diffuser:
  assumes "1 \<le> n_qubits"
    and "marked_ints marked_states = Inr targets"
    and "distinct targets"
    and "\<forall>t \<in> set targets. 0 \<le> t \<and> t < 2 ^ n_qubits"
  shows "\<exists>oracle_qc diffuser_qc psi1 psi2.
     create_oracle n_qubits marked_states = Inr oracle_qc \<and>
     run_gates (gates oracle_qc) psi = Some psi1 \<and>
     (\<forall>x<2 ^ n_qubits. psi1 x = (if int x \<in> set targets then - psi x else psi x)) \<and>
     create_diffuser n_qubits = Inr diffuser_qc \<and>
     run_gates (gates diffuser_qc) psi = Some psi2 \<and>
     (\<forall>x<2 ^ n_qubits. psi2 x = - (2 / 2 ^ n_qubits * (\<Sum>y<2 ^ n_qubits. psi y) - psi x))"
proof -
  from oracle_gates_sem [OF assms(1,3,4), of psi] obtain psi1 where
    orc: "run_gates (concat (map (mark_target n_qubits) targets)) psi = Some psi1"
      "\<forall>x<2 ^ n_qubits. psi1 x = (if int x \<in> set targets then - psi x else psi x)"
    by blast
  from diffuser_gates_sem [OF assms(1), of psi] obtain psi2 where
    dif: "run_gates (map H [0..<n_qubits] @ map X [0..<n_qubits] @ multi_controlled_z n_qubits
          @ map X [0..<n_qubits] @ map H [0..<n_qubits]) psi = Some psi2"
      "\<forall>x<2 ^ n_qubits. psi2 x = psi x - 2 / 2 ^ n_qubits * (\<Sum>y<2 ^ n_qubits. psi y)"
    by blast
  have co: "create_oracle n_qubits marked_states =
      Inr (append_gates (QuantumCircuit n_qubits 0) (concat (map (mark_target n_qubits) targets)))"
    using assms(1,2) by (simp add: create_oracle_def)
  have cd: "create_diffuser n_qubits =
      Inr (append_gates (QuantumCircuit n_qubits 0)
             (map H [0..<n_qubits] @ map X [0..<n_qubits] @ multi_controlled_z n_qubits
              @ map X [0..<n_qubits] @ map H [0..<n_qubits]))"
    using assms(1) by (simp add: create_diffuser_def)
  have g: "gates (append_gates (QuantumCircuit n_qubits 0) gs) = gs" for gs
    by (simp add: append_gates_def QuantumCircuit_def)
  from dif(2) have d2:
    "\<forall>x<2 ^ n_qubits. psi2 x = - (2 / 2 ^ n_qubits * (\<Sum>y<2 ^ n_qubits. psi y) - psi x)"
    by simp
  show ?thesis
    unfolding co cd using orc dif(1) d2 by (auto simp: g)
qed

theorem grover_oracle_and_diffuser_witness:
  "1 \<le> (2::nat) \<and> marked_ints [IntState 1, StrState ''10''] = Inr [1, 2] \<and>
   distinct [1, 2 :: int] \<and>
   (0::int) \<le> 1 \<and> (1::int) < 2 ^ 2 \<and> (0::int) \<le> 2 \<and> (2::int) < 2 ^ 2 \<and>
   (\<exists>oracle_qc diffuser_qc psi1 psi2.
      create_oracle 2 [IntState 1, StrState ''10''] = Inr oracle_qc \<and>
      run_gates (gates oracle_qc) (\<lambda>x. of_nat x) = Some psi1 \<and>
      psi1 1 = - 1 \<and> psi1 2 = - 2 \<and> psi1 3 = 3 \<and>
      create_diffuser 2 = Inr diffuser_qc \<and>
      run_gates (gates diffuser_qc) (\<lambda>x. of_nat x) = Some psi2 \<and>
      psi2 0 = - 3 \<and> psi2 3 = 0)"
proof -
  have m: "marked_ints [IntState 1, StrState ''10''] = Inr [1, 2]"
    by (simp add: int_base2_def py_isspace_def binary_literal_def binary_digit_def)
  have r: "\<forall>t \<in> set [1, 2 :: int]. 0 \<le> t \<and> t < 2 ^ 2" by simp
  have s: "(\<Sum>y<2 ^ 2. (of_nat y :: complex)) = 6"
    by (simp add: lessThan_nat_numeral lessThan_Suc)
  from grover_oracle_and_diffuser [of 2 "[IntState 1, StrState ''10'']" "[1, 2]" "\<lambda>x. of_nat x", OF _ m _ r]
  obtain oracle_qc diffuser_qc psi1 psi2 where
    orc: "create_oracle 2 [IntState 1, StrState ''10''] = Inr oracle_qc"
      "run_gates (gates oracle_qc) (\<lambda>x. of_nat x) = Some psi1"
      "\<forall>x<2 ^ 2. psi1 x = (if int x \<in> set [1, 2] then - of_nat x else of_nat x)" and
    dif: "create_diffuser 2 = Inr diffuser_qc"
      "run_gates (gates diffuser_qc) (\<lambda>x. of_nat x) = Some psi2"
      "\<forall>x<2 ^ 2. psi2 x = - (2 / 2 ^ 2 * (\<Sum>y<2 ^ 2. of_nat y) - of_nat x)"
    by auto
  from orc(3) have "psi1 1 = - 1" "psi1 2 = - 2" "psi1 3 = 3" by simp_all
  moreover from dif(3) have "psi2 0 = - 3" "psi2 3 = 0" unfolding s by simp_all
  ultimately show ?thesis using m orc(1,2) dif(1,2) by auto
qed

end
